theory Spec2Isabelle
  imports
    Main
    "HOL-Library.Multiset"
    "HOL-Library.Char_ord"
    "HOL-Library.List_Lexorder"
    "HOL-Library.Sublist"
begin

section \<open>Text primitives of the host language\<close>

text \<open>
  The tool works on decoded text. A character is modelled by a \<^typ>\<open>char\<close>, read as the
  code point of the same number (code points below 256). The string methods the program
  calls are modelled on that range: \<open>str.strip()\<close> removes the white-space code points
  9-13, 28-31, 32, 133 and 160 from both ends, \<open>str.lower()\<close> maps \<open>A-Z\<close> and the
  capital letters 192-222 (215 excepted) to the letter 32 places further on.
\<close>

definition is_space :: "char \<Rightarrow> bool" where
  "is_space c = ((of_char c :: nat) \<in> set [9, 10, 11, 12, 13, 28, 29, 30, 31, 32, 133, 160])"

definition lower_char :: "char \<Rightarrow> char" where
  "lower_char c =
     (let n = (of_char c :: nat)
      in if (65 \<le> n \<and> n \<le> 90) \<or> (192 \<le> n \<and> n \<le> 222 \<and> n \<noteq> 215)
         then char_of (n + 32) else c)"

definition str_lower :: "string \<Rightarrow> string" where
  "str_lower s = map lower_char s"

text \<open>\<open>s.strip(chars)\<close>: every leading and every trailing character of the set goes.\<close>

definition strip_set :: "(char \<Rightarrow> bool) \<Rightarrow> string \<Rightarrow> string" where
  "strip_set P s = rev (dropWhile P (rev (dropWhile P s)))"

definition str_strip :: "string \<Rightarrow> string" where
  "str_strip s = strip_set is_space s"

definition dq :: char where
  "dq = CHR 0x22"

definition sq :: char where
  "sq = CHR 0x27"

definition strip_chars :: "char \<Rightarrow> string \<Rightarrow> string" where
  "strip_chars q s = strip_set (\<lambda>c. c = q) s"

fun startswith :: "string \<Rightarrow> string \<Rightarrow> bool" where
  "startswith s [] = True"
| "startswith [] (p # ps) = False"
| "startswith (c # cs) (p # ps) = (c = p \<and> startswith cs ps)"

text \<open>\<open>s.split(sep)\<close> for a one-character separator; the result is never empty.\<close>

fun str_split :: "char \<Rightarrow> string \<Rightarrow> string list" where
  "str_split sep [] = [[]]"
| "str_split sep (c # cs) =
     (if c = sep then [] # str_split sep cs
      else (case str_split sep cs of
              [] \<Rightarrow> [[c]]
            | seg # segs \<Rightarrow> (c # seg) # segs))"

text \<open>\<open>s.split(sep)[0]\<close>.\<close>

definition first_segment :: "char \<Rightarrow> string \<Rightarrow> string" where
  "first_segment sep s = (case str_split sep s of [] \<Rightarrow> [] | seg # _ \<Rightarrow> seg)"

text \<open>\<open>q in s\<close> on strings: \<open>q\<close> occurs in \<open>s\<close> as a contiguous substring.\<close>

fun str_in :: "string \<Rightarrow> string \<Rightarrow> bool" where
  "str_in q [] = (q = [])"
| "str_in q (c # cs) = (startswith (c # cs) q \<or> str_in q cs)"


section \<open>The metadata parser\<close>

text \<open>Truth value of a variable that holds \<open>None\<close> or a string.\<close>

fun truthy :: "string option \<Rightarrow> bool" where
  "truthy None = False"
| "truthy (Some s) = (s \<noteq> [])"

text \<open>The test that sends a stripped line to \<open>continue\<close>.\<close>

definition skipped :: "string \<Rightarrow> bool" where
  "skipped line =
     (line = [] \<or> CHR ''='' \<notin> set line \<or> startswith line ''#'' \<or> startswith line ''//'')"

text \<open>\<open>line.split("=", 1)\<close> on a line that contains \<open>=\<close>: the text before the first
  \<open>=\<close> and the text after it.\<close>

definition split_eq :: "string \<Rightarrow> string \<times> string" where
  "split_eq line =
     (takeWhile (\<lambda>c. c \<noteq> CHR ''='') line, drop 1 (dropWhile (\<lambda>c. c \<noteq> CHR ''='') line))"

text \<open>The key and the value as the loop body computes them.\<close>

definition key_value :: "string \<Rightarrow> string \<times> string" where
  "key_value line =
     (case split_eq line of (key, value) \<Rightarrow>
        (str_lower (str_strip key), strip_chars sq (strip_chars dq (str_strip value))))"

text \<open>The two assignments of the loop body, on the pair \<open>(name, modid)\<close>.\<close>

definition assign :: "string \<Rightarrow> string option \<times> string option \<Rightarrow> string option \<times> string option" where
  "assign line nm =
     (case (key_value line, nm) of ((key, value), (name, modid)) \<Rightarrow>
        if key = ''name'' \<and> \<not> truthy name \<and> value \<noteq> [] then (Some value, modid)
        else if key = ''id'' \<and> \<not> truthy modid \<and> value \<noteq> []
             then (name, Some (str_strip (first_segment CHR '';'' value)))
        else (name, modid))"

text \<open>
  The \<open>for line_num, raw_line in enumerate(f, 1)\<close> loop. The third component of the result
  counts the lines taken from the file, which is the last value of \<open>line_num\<close>
  (\<open>line_num - 1\<close> when the file ends). A line that has passed the test contains
  \<open>=\<close>, so the split yields its two parts and the handler of \<open>ValueError\<close> is never
  entered.
\<close>

fun read_loop :: "nat \<Rightarrow> string option \<times> string option \<Rightarrow> string list
    \<Rightarrow> (string option \<times> string option) \<times> nat" where
  "read_loop line_num nm [] = (nm, line_num - 1)"
| "read_loop line_num nm (raw_line # rest) =
     (if line_num > 500 then (nm, line_num)
      else let line = str_strip raw_line
           in if skipped line then read_loop (Suc line_num) nm rest
              else let nm' = assign line nm
                   in if truthy (fst nm') \<and> truthy (snd nm') then (nm', line_num)
                      else read_loop (Suc line_num) nm' rest)"

text \<open>A parsed mod: the dictionary with the keys \<open>name\<close>, \<open>modid\<close> and \<open>workshopid\<close>.\<close>

record mod_info =
  name :: string
  modid :: string
  workshopid :: string

text \<open>
  \<open>_read_mod_info\<close>. The first argument is the text of the \<open>mod.info\<close> file that
  \<open>find_modinfo\<close> located, as the list of its lines; \<open>None\<close> when no file was found or it
  could not be opened.
\<close>

definition read_mod_info :: "string list option \<Rightarrow> string \<Rightarrow> mod_info option" where
  "read_mod_info file wid =
     (case file of
        None \<Rightarrow> None
      | Some lines \<Rightarrow>
          (case fst (read_loop 1 (None, None) lines) of
             (Some n, Some m) \<Rightarrow>
               if n \<noteq> [] \<and> m \<noteq> [] then Some \<lparr>name = n, modid = m, workshopid = wid\<rparr> else None
           | _ \<Rightarrow> None))"


section \<open>The table: filter, sort and export\<close>

text \<open>
  The part of the application object that filtering, sorting and export read and write:
  the scanned mods, the text of the search box, the rows of the table from top to
  bottom (each row is its \<open>values\<close> triple) and the dictionary of sort directions.
  The colour tag of a row is its position's parity, set afresh by every operation
  that writes the rows.
\<close>

datatype column = Name | ModID | WorkshopID

type_synonym row = "string \<times> string \<times> string"

record app_state =
  mods :: "mod_info list"
  search_var :: string
  tree :: "row list"
  sort_dir :: "column \<rightharpoonup> bool"

text \<open>\<open>self._sort_dir = {}\<close> of the constructor.\<close>

definition empty_dirs :: "column \<rightharpoonup> bool" where
  "empty_dirs = Map.empty"

text \<open>\<open>_apply_filter\<close>: the table is emptied and filled with the rows that match.\<close>

definition apply_filter :: "app_state \<Rightarrow> app_state" where
  "apply_filter st =
     (let query = str_strip (str_lower (search_var st));
          filtered_rows =
            [(name m, modid m, workshopid m). m \<leftarrow> mods st,
               query = [] \<or> str_in query (str_lower (name m))
               \<or> str_in query (str_lower (modid m))
               \<or> str_in query (str_lower (workshopid m))]
      in st\<lparr>tree := filtered_rows\<rparr>)"

text \<open>
  \<open>export_csv\<close>. \<open>file_path\<close> is the answer of the save dialog (empty when the user
  cancels), \<open>open_ok\<close> tells whether the file could be opened for writing. The result
  lists the rows handed to the CSV writer, header first.
\<close>

datatype export_result = NothingToExport | Cancelled | WriteFailed | Written "string list list"

definition export_csv :: "app_state \<Rightarrow> string \<Rightarrow> bool \<Rightarrow> export_result" where
  "export_csv st file_path open_ok =
     (if mods st = [] then NothingToExport
      else if file_path = [] then Cancelled
      else let query = str_strip (str_lower (search_var st));
               filtered_mods =
                 filter (\<lambda>m. query = [] \<or> str_in query (str_lower (name m))
                             \<or> str_in query (str_lower (modid m))
                             \<or> str_in query (str_lower (workshopid m))) (mods st)
           in if \<not> open_ok then WriteFailed
              else Written ([''Name'', ''ModID'', ''WorkshopID'']
                            # map (\<lambda>m. [name m, modid m, workshopid m]) filtered_mods))"

subsection \<open>Sort keys\<close>

text \<open>
  \<open>int(value)\<close> on a string, base ten: white space around the number is dropped, one sign
  may lead, and the digits may be grouped by single underscores. Every other string raises
  \<open>ValueError\<close>, which is \<open>None\<close> here. The white space of \<open>int\<close> is narrower than that of
  \<open>str.strip()\<close>: the separators 28-31 are not skipped, so \<open>int\<close> rejects a string that
  starts or ends with one of them. (Interpreters that bound the number of digits of a
  conversion do so far above the length a directory name can have.)
\<close>

definition is_int_space :: "char \<Rightarrow> bool" where
  "is_int_space c = ((of_char c :: nat) \<in> set [9, 10, 11, 12, 13, 32, 133, 160])"

definition is_digit :: "char \<Rightarrow> bool" where
  "is_digit c = (48 \<le> (of_char c :: nat) \<and> (of_char c :: nat) \<le> 57)"

fun digit_run :: "bool \<Rightarrow> string \<Rightarrow> bool" where
  "digit_run prev [] = prev"
| "digit_run prev (c # cs) =
     (if is_digit c then digit_run True cs
      else c = CHR ''_'' \<and> prev \<and> digit_run False cs)"

definition digits_value :: "string \<Rightarrow> int" where
  "digits_value s = foldl (\<lambda>a c. 10 * a + (int (of_char c) - 48)) 0 (filter is_digit s)"

definition py_int :: "string \<Rightarrow> int option" where
  "py_int s =
     (case strip_set is_int_space s of
        [] \<Rightarrow> None
      | c # cs \<Rightarrow>
          if c = CHR ''-'' then (if digit_run False cs then Some (- digits_value cs) else None)
          else if c = CHR ''+'' then (if digit_run False cs then Some (digits_value cs) else None)
          else if digit_run False (c # cs) then Some (digits_value (c # cs)) else None)"

datatype py_key = IntKey int | StrKey string

datatype py_error = TypeError

fun column_index :: "column \<Rightarrow> nat" where
  "column_index Name = 0"
| "column_index ModID = 1"
| "column_index WorkshopID = 2"

fun values_at :: "row \<Rightarrow> nat \<Rightarrow> string" where
  "values_at (a, b, c) i = (if i = 0 then a else if i = 1 then b else c)"

text \<open>The local function \<open>sort_key\<close> of \<open>_sort_by\<close>.\<close>

definition sort_key_of :: "column \<Rightarrow> row \<Rightarrow> py_key" where
  "sort_key_of col item =
     (let v = values_at item (column_index col)
      in if column_index col = 2
         then (case py_int v of Some i \<Rightarrow> IntKey i | None \<Rightarrow> StrKey (str_lower v))
         else StrKey (str_lower v))"

fun is_int_key :: "py_key \<Rightarrow> bool" where
  "is_int_key (IntKey i) = True"
| "is_int_key (StrKey s) = False"

fun int_of_key :: "py_key \<Rightarrow> int" where
  "int_of_key (IntKey i) = i"
| "int_of_key (StrKey s) = 0"

fun str_of_key :: "py_key \<Rightarrow> string" where
  "str_of_key (StrKey s) = s"
| "str_of_key (IntKey i) = []"

text \<open>
  \<open>list.sort(key=..., reverse=...)\<close> of the host language, by its contract: the sort is
  stable, with \<open>reverse\<close> it orders downwards and still keeps rows of equal key in their
  former order, and it raises \<open>TypeError\<close> when it has to compare an integer key with a
  string key, which it must as soon as the list holds both kinds.
\<close>

definition stable_sort :: "('a \<Rightarrow> 'k::linorder) \<Rightarrow> bool \<Rightarrow> 'a list \<Rightarrow> 'a list" where
  "stable_sort f reverse xs = (if reverse then rev (sort_key f (rev xs)) else sort_key f xs)"

definition list_sort :: "('a \<Rightarrow> py_key) \<Rightarrow> bool \<Rightarrow> 'a list \<Rightarrow> py_error + 'a list" where
  "list_sort key reverse xs =
     (if list_all (\<lambda>x. is_int_key (key x)) xs
      then Inr (stable_sort (\<lambda>x. int_of_key (key x)) reverse xs)
      else if list_all (\<lambda>x. \<not> is_int_key (key x)) xs
      then Inr (stable_sort (\<lambda>x. str_of_key (key x)) reverse xs)
      else Inl TypeError)"

text \<open>\<open>self._sort_dir.get(col, False)\<close>.\<close>

definition get_dir :: "(column \<rightharpoonup> bool) \<Rightarrow> column \<Rightarrow> bool" where
  "get_dir d col = (case d col of None \<Rightarrow> False | Some b \<Rightarrow> b)"

text \<open>
  \<open>_sort_by\<close>. An exception of the sort leaves the handler before the table and the
  directions are written: the state then stays as it was, and the result is the error.
\<close>

definition sort_by :: "column \<Rightarrow> app_state \<Rightarrow> py_error + app_state" where
  "sort_by col st =
     (let items = tree st
      in if items = [] then Inr st
         else let reverse_sort = get_dir (sort_dir st) col
              in (case list_sort (sort_key_of col) reverse_sort items of
                    Inl e \<Rightarrow> Inl e
                  | Inr sorted_items \<Rightarrow>
                      Inr (st\<lparr>tree := sorted_items,
                               sort_dir := (sort_dir st)(col \<mapsto> \<not> reverse_sort)\<rparr>)))"

text \<open>Two activations of the same column heading in a row.\<close>

definition click_twice :: "column \<Rightarrow> app_state \<Rightarrow> py_error + app_state" where
  "click_twice col st = (case sort_by col st of Inl e \<Rightarrow> Inl e | Inr st1 \<Rightarrow> sort_by col st1)"


section \<open>Vocabulary of the specification\<close>

subsection \<open>Parser\<close>

text \<open>Both fields hold a non-empty string: the test of the early exit and of the return.\<close>

definition captured :: "string option \<times> string option \<Rightarrow> bool" where
  "captured nm = (truthy (fst nm) \<and> truthy (snd nm))"

text \<open>
  The lines the parser can look at: the first 500, stripped, without the blank lines,
  the comments and the lines that have no \<open>=\<close>.
\<close>

definition processed :: "string list \<Rightarrow> string list" where
  "processed lines = filter (\<lambda>l. \<not> skipped l) (map str_strip (take 500 lines))"

text \<open>
  The number of lines the loop takes from the file, and the lines whose text it has
  looked at when it leaves.
\<close>

definition lines_read :: "string list \<Rightarrow> nat" where
  "lines_read lines = snd (read_loop 1 (None, None) lines)"

definition seen :: "string list \<Rightarrow> string list" where
  "seen lines = processed (take (lines_read lines) lines)"

text \<open>The non-empty values of the \<open>name\<close> lines, and of the \<open>id\<close> lines, in file order.\<close>

definition name_values :: "string list \<Rightarrow> string list" where
  "name_values ls =
     map (\<lambda>l. snd (key_value l))
       (filter (\<lambda>l. fst (key_value l) = ''name'' \<and> snd (key_value l) \<noteq> []) ls)"

definition id_values :: "string list \<Rightarrow> string list" where
  "id_values ls =
     map (\<lambda>l. snd (key_value l))
       (filter (\<lambda>l. fst (key_value l) = ''id'' \<and> snd (key_value l) \<noteq> []) ls)"

text \<open>The trimmed first \<open>;\<close>-segments of those \<open>id\<close> values, the empty ones left out.\<close>

definition modid_values :: "string list \<Rightarrow> string list" where
  "modid_values ls =
     filter (\<lambda>s. s \<noteq> []) (map (\<lambda>v. str_strip (first_segment CHR '';'' v)) (id_values ls))"

text \<open>
  The trimmed first \<open>;\<close>-segment of the value of the first \<open>id\<close> line that has a
  non-empty value, whether that segment is empty or not.
\<close>

definition first_id_segment :: "string list \<Rightarrow> string option" where
  "first_id_segment lines =
     (case id_values (processed lines) of
        [] \<Rightarrow> None
      | v # _ \<Rightarrow> Some (str_strip (first_segment CHR '';'' v)))"

text \<open>The string a variable holds, \<open>None\<close> read as the empty string.\<close>

fun text_of :: "string option \<Rightarrow> string" where
  "text_of None = []"
| "text_of (Some s) = s"

text \<open>The field after a run over lines with the candidate values \<open>vs\<close>: what it held if
  that was non-empty, else the first candidate.\<close>

definition pickv :: "string option \<Rightarrow> string list \<Rightarrow> string" where
  "pickv x vs = (if text_of x \<noteq> [] then text_of x else (case vs of [] \<Rightarrow> [] | v # _ \<Rightarrow> v))"

text \<open>The lines still open to the loop when it stands at line number \<open>n\<close>.\<close>

definition kept :: "nat \<Rightarrow> string list \<Rightarrow> string list" where
  "kept n ls = filter (\<lambda>l. \<not> skipped l) (map str_strip (take (501 - n) ls))"

text \<open>
  \<open>t\<close> is \<open>s\<close> without its leading and trailing characters of the class \<open>P\<close>: what is
  cut off lies in \<open>P\<close>, and \<open>t\<close> neither starts nor ends in \<open>P\<close>.
\<close>

definition stripped_of :: "(char \<Rightarrow> bool) \<Rightarrow> string \<Rightarrow> string \<Rightarrow> bool" where
  "stripped_of P s t =
     (\<exists>a b. s = a @ t @ b \<and> list_all P a \<and> list_all P b
        \<and> (t = [] \<or> (\<not> P (hd t) \<and> \<not> P (last t))))"

text \<open>One layer of surrounding quotes removed, as the specification words it: a string
  that starts and ends with the same quote character loses that pair and no more.\<close>

definition strip_one_layer :: "string \<Rightarrow> string" where
  "strip_one_layer s =
     (if 2 \<le> length s \<and> hd s = last s \<and> (hd s = dq \<or> hd s = sq) then butlast (tl s) else s)"

subsection \<open>Table\<close>

definition row_of :: "mod_info \<Rightarrow> row" where
  "row_of m = (name m, modid m, workshopid m)"

definition csv_row :: "row \<Rightarrow> string list" where
  "csv_row r = (case r of (a, b, c) \<Rightarrow> [a, b, c])"

text \<open>\<open>q\<close> is a substring of \<open>s\<close> when case is ignored.\<close>

definition ci_substring :: "string \<Rightarrow> string \<Rightarrow> bool" where
  "ci_substring q s = sublist (str_lower q) (str_lower s)"

definition record_matches :: "string \<Rightarrow> mod_info \<Rightarrow> bool" where
  "record_matches q m =
     (ci_substring q (name m) \<or> ci_substring q (modid m) \<or> ci_substring q (workshopid m))"

text \<open>
  The order of two sort keys of one kind, and a table whose rows stand in that order of
  their keys for a column, upwards or downwards.
\<close>

fun key_leq :: "py_key \<Rightarrow> py_key \<Rightarrow> bool" where
  "key_leq (IntKey a) (IntKey b) = (a \<le> b)"
| "key_leq (StrKey a) (StrKey b) = (a \<le> b)"
| "key_leq (IntKey a) (StrKey b) = False"
| "key_leq (StrKey a) (IntKey b) = False"

definition in_order :: "column \<Rightarrow> bool \<Rightarrow> row list \<Rightarrow> bool" where
  "in_order col descending rows =
     sorted_wrt (\<lambda>a b. if descending then key_leq (sort_key_of col b) (sort_key_of col a)
                       else key_leq (sort_key_of col a) (sort_key_of col b)) rows"

text \<open>The rows stand in ascending order of the integers their workshop ids read as.\<close>

definition numeric_order :: "row list \<Rightarrow> bool" where
  "numeric_order rows =
     sorted (map (\<lambda>r. case py_int (snd (snd r)) of Some i \<Rightarrow> i | None \<Rightarrow> 0) rows)"


section \<open>Properties of the parser\<close>

lemma str_split_not_Nil: "str_split sep s \<noteq> []"
  by (induction s) (auto split: list.splits)

lemma truthy_val: "truthy x = (text_of x \<noteq> [])"
  by (cases x) auto

lemma pickv_step:
  assumes "text_of x1 = pickv x v1" and "\<forall>v\<in>set v1. v \<noteq> []"
  shows "pickv x1 v2 = pickv x (v1 @ v2)"
  using assms by (cases v1) (auto simp: pickv_def)

lemma name_values_Cons: "name_values (l # ls) = name_values [l] @ name_values ls"
  by (simp add: name_values_def)

lemma modid_values_Cons: "modid_values (l # ls) = modid_values [l] @ modid_values ls"
  by (simp add: modid_values_def id_values_def)

lemma name_values_nonempty: "\<forall>v\<in>set (name_values ls). v \<noteq> []"
  by (auto simp: name_values_def)

lemma modid_values_nonempty: "\<forall>v\<in>set (modid_values ls). v \<noteq> []"
  by (auto simp: modid_values_def)

lemma assign_name: "text_of (fst (assign l (a, b))) = pickv a (name_values [l])"
  by (cases "key_value l") (auto simp: assign_def pickv_def name_values_def truthy_val)

lemma assign_modid: "text_of (snd (assign l (a, b))) = pickv b (modid_values [l])"
  by (cases "key_value l") (auto simp: assign_def pickv_def modid_values_def id_values_def truthy_val)

lemma kept_Cons:
  "n \<le> 500 \<Longrightarrow> kept n (l # ls) = (if skipped (str_strip l) then kept (Suc n) ls else str_strip l # kept (Suc n) ls)"
proof -
  assume "n \<le> 500"
  then have "501 - n = Suc (500 - n)" by arith
  then show ?thesis by (simp add: kept_def)
qed

lemma kept_over: "500 < n \<Longrightarrow> kept n ls = []"
  by (simp add: kept_def)

lemma loop_values:
  "text_of (fst (fst (read_loop n (a, b) ls))) = pickv a (name_values (kept n ls))
   \<and> text_of (snd (fst (read_loop n (a, b) ls))) = pickv b (modid_values (kept n ls))"
proof (induction ls arbitrary: n a b)
  case Nil
  then show ?case by (simp add: kept_def pickv_def name_values_def modid_values_def id_values_def)
next
  case (Cons l ls)
  show ?case
  proof (cases "500 < n")
    case True
    then show ?thesis by (simp add: kept_over pickv_def name_values_def modid_values_def id_values_def)
  next
    case False
    then have n: "n \<le> 500" by simp
    show ?thesis
    proof (cases "skipped (str_strip l)")
      case True
      then show ?thesis using n Cons.IH[of "Suc n" a b] by (simp add: kept_Cons)
    next
      case False
      obtain a1 b1 where ab: "assign (str_strip l) (a, b) = (a1, b1)" by (cases "assign (str_strip l) (a, b)")
      have va: "text_of a1 = pickv a (name_values [str_strip l])" using assign_name[of "str_strip l" a b] ab by simp
      have vb: "text_of b1 = pickv b (modid_values [str_strip l])" using assign_modid[of "str_strip l" a b] ab by simp
      let ?ks = "kept (Suc n) ls"
      have k: "kept n (l # ls) = str_strip l # ?ks" using n False by (simp add: kept_Cons)
      have pa: "pickv a1 (name_values ?ks) = pickv a (name_values (kept n (l # ls)))"
        unfolding k name_values_Cons[of "str_strip l" ?ks]
        by (rule pickv_step[OF va name_values_nonempty])
      have pb: "pickv b1 (modid_values ?ks) = pickv b (modid_values (kept n (l # ls)))"
        unfolding k modid_values_Cons[of "str_strip l" ?ks]
        by (rule pickv_step[OF vb modid_values_nonempty])
      show ?thesis
      proof (cases "truthy a1 \<and> truthy b1")
        case True
        then have "read_loop n (a, b) (l # ls) = ((a1, b1), n)"
          using n False ab by (simp add: Let_def)
        moreover have "pickv a1 (name_values ?ks) = text_of a1" "pickv b1 (modid_values ?ks) = text_of b1"
          using True by (simp_all add: pickv_def truthy_val)
        ultimately show ?thesis using pa pb by simp
      next
        case nb: False
        then have "read_loop n (a, b) (l # ls) = read_loop (Suc n) (a1, b1) ls"
          using n False ab by (auto simp: Let_def)
        then show ?thesis using Cons.IH[of "Suc n" a1 b1] pa pb by simp
      qed
    qed
  qed
qed

lemma processed_kept: "processed lines = kept 1 lines"
  by (simp add: processed_def kept_def)

lemma read_mod_info_char:
  "read_mod_info (Some lines) w =
     (case name_values (processed lines) of
        [] \<Rightarrow> None
      | n # _ \<Rightarrow>
          (case modid_values (processed lines) of
             [] \<Rightarrow> None
           | m # _ \<Rightarrow> Some \<lparr>name = n, modid = m, workshopid = w\<rparr>))"
proof -
  obtain a b where r: "fst (read_loop 1 (None, None) lines) = (a, b)"
    by (cases "fst (read_loop 1 (None, None) lines)")
  have va: "text_of a = pickv None (name_values (processed lines))"
    and vb: "text_of b = pickv None (modid_values (processed lines))"
    using loop_values[of 1 None None lines] r by (simp_all add: processed_kept)
  have nn: "\<forall>v\<in>set (name_values (processed lines)). v \<noteq> []" by (rule name_values_nonempty)
  have mm: "\<forall>v\<in>set (modid_values (processed lines)). v \<noteq> []" by (rule modid_values_nonempty)
  have rm: "read_mod_info (Some lines) w =
      (if text_of a \<noteq> [] \<and> text_of b \<noteq> [] then Some \<lparr>name = text_of a, modid = text_of b, workshopid = w\<rparr>
       else None)"
    using r by (cases a; cases b) (simp_all add: read_mod_info_def)
  show ?thesis
  proof (cases "name_values (processed lines)")
    case Nil
    then show ?thesis using va rm by (simp add: pickv_def)
  next
    case cn: (Cons n ns)
    then have n: "text_of a = n" "n \<noteq> []" using va nn by (simp_all add: pickv_def)
    show ?thesis
    proof (cases "modid_values (processed lines)")
      case Nil
      then show ?thesis using vb rm cn by (simp add: pickv_def)
    next
      case (Cons m ms)
      then have "text_of b = m" "m \<noteq> []" using vb mm by (simp_all add: pickv_def)
      then show ?thesis using n rm cn Cons by simp
    qed
  qed
qed

lemma strip_set_stripped: "stripped_of P s (strip_set P s)"
proof -
  let ?d = "dropWhile P s"
  let ?t = "rev (dropWhile P (rev ?d))"
  let ?b = "rev (takeWhile P (rev ?d))"
  have d: "?d = ?t @ ?b"
    by (metis rev_append rev_rev_ident takeWhile_dropWhile_id)
  have s: "s = takeWhile P s @ ?t @ ?b" using d by (metis takeWhile_dropWhile_id)
  have a: "list_all P (takeWhile P s)" by (simp add: list_all_iff) (meson set_takeWhileD)
  have b: "list_all P ?b" by (simp add: list_all_iff) (meson set_takeWhileD)
  have e: "\<not> P (hd ?t) \<and> \<not> P (last ?t)" if ne: "?t \<noteq> []"
  proof -
    have "dropWhile P (rev ?d) \<noteq> []" using ne by simp
    then have l: "\<not> P (last ?t)" by (simp add: last_rev hd_dropWhile)
    have "?d \<noteq> []"
    proof
      assume z: "?d = []"
      have "?t = []" unfolding z by simp
      then show False using ne by simp
    qed
    then have "\<not> P (hd ?d)" by (rule hd_dropWhile)
    moreover have "hd ?d = hd ?t" using d ne by (metis hd_append2)
    ultimately show ?thesis using l by simp
  qed
  show ?thesis unfolding stripped_of_def strip_set_def
    using s a b e by blast
qed

lemma split_eq_first:
  "CHR ''='' \<notin> set k \<Longrightarrow> split_eq (k @ CHR ''='' # v) = (k, v)"
proof -
  assume k: "CHR ''='' \<notin> set k"
  then have "takeWhile (\<lambda>c. c \<noteq> CHR ''='') (k @ CHR ''='' # v) = k"
    by (auto simp: takeWhile_tail)
  moreover have "dropWhile (\<lambda>c. c \<noteq> CHR ''='') (k @ CHR ''='' # v) = CHR ''='' # v"
    using k by (auto simp: dropWhile_append3)
  ultimately show ?thesis by (simp add: split_eq_def)
qed

lemma read_loop_step:
  "n \<le> 500 \<Longrightarrow> read_loop n nm (l # ls) =
     (if skipped (str_strip l) then read_loop (Suc n) nm ls
      else if captured (assign (str_strip l) nm) then (assign (str_strip l) nm, n)
      else read_loop (Suc n) (assign (str_strip l) nm) ls)"
  by (simp add: Let_def captured_def)

lemma read_loop_over [simp]: "500 < n \<Longrightarrow> read_loop n nm (l # ls) = (nm, n)"
  by simp

declare read_loop.simps(2) [simp del]

lemma count_bounds:
  "1 \<le> n \<Longrightarrow> n - 1 \<le> snd (read_loop n nm ls) \<and> snd (read_loop n nm ls) \<le> n - 1 + length ls"
proof (induction ls arbitrary: n nm)
  case Nil
  then show ?case by simp
next
  case (Cons l ls)
  show ?case
  proof (cases "500 < n")
    case True
    then show ?thesis using Cons.prems by simp
  next
    case False
    then have n: "n \<le> 500" by simp
    show ?thesis
      using Cons.IH[of "Suc n" nm] Cons.IH[of "Suc n" "assign (str_strip l) nm"] Cons.prems
      by (auto simp: read_loop_step[OF n])
  qed
qed

lemma count_limit:
  "n \<le> 501 \<Longrightarrow> snd (read_loop n nm ls) \<le> 501"
proof (induction ls arbitrary: n nm)
  case Nil
  then show ?case by simp
next
  case (Cons l ls)
  show ?case
  proof (cases "500 < n")
    case True
    then show ?thesis using Cons.prems by simp
  next
    case False
    then have n: "n \<le> 500" by simp
    show ?thesis
      using Cons.IH[of "Suc n" nm] Cons.IH[of "Suc n" "assign (str_strip l) nm"] n
      by (auto simp: read_loop_step[OF n])
  qed
qed

lemma first_500:
  "fst (read_loop n nm (take (501 - n) ls)) = fst (read_loop n nm ls)"
proof (induction ls arbitrary: n nm)
  case Nil
  then show ?case by simp
next
  case (Cons l ls)
  show ?case
  proof (cases "500 < n")
    case True
    then show ?thesis by simp
  next
    case False
    then have n: "n \<le> 500" by simp
    then have t: "take (501 - n) (l # ls) = l # take (501 - Suc n) ls"
      by (simp add: take_Cons' )
    show ?thesis
      using Cons.IH[of "Suc n" nm] Cons.IH[of "Suc n" "assign (str_strip l) nm"]
      unfolding t by (simp add: read_loop_step[OF n])
  qed
qed

lemma stops_at_capture:
  assumes "1 \<le> n" and "read_loop n nm ls = (r, k)" and "captured r" and "\<not> captured nm"
  shows "n \<le> k \<and> k \<le> 500
     \<and> (\<forall>rest. read_loop n nm (take (k - (n - 1)) ls @ rest) = (r, k))
     \<and> (\<forall>j < k - (n - 1). \<not> captured (fst (read_loop n nm (take j ls))))"
  using assms
proof (induction ls arbitrary: n nm)
  case Nil
  then show ?case by simp
next
  case (Cons l ls)
  show ?case
  proof (cases "500 < n")
    case True
    then show ?thesis using Cons.prems by simp
  next
    case False
    then have n: "n \<le> 500" by simp
    show ?thesis
    proof (cases "skipped (str_strip l)")
      case True
      then have rl: "read_loop (Suc n) nm ls = (r, k)"
        using Cons.prems(2) by (simp add: read_loop_step[OF n])
      from Cons.IH[OF _ rl Cons.prems(3) Cons.prems(4)]
      have ih: "Suc n \<le> k" "k \<le> 500"
        "\<forall>rest. read_loop (Suc n) nm (take (k - n) ls @ rest) = (r, k)"
        "\<forall>j < k - n. \<not> captured (fst (read_loop (Suc n) nm (take j ls)))"
        by simp_all
      have tk: "take (k - (n - 1)) (l # ls) = l # take (k - n) ls"
        using ih(1) Cons.prems(1) by (simp add: take_Cons')
      have a: "\<forall>rest. read_loop n nm (take (k - (n - 1)) (l # ls) @ rest) = (r, k)"
        unfolding tk using ih(3) True by (simp add: read_loop_step[OF n])
      have b: "\<not> captured (fst (read_loop n nm (take j (l # ls))))" if "j < k - (n - 1)" for j
      proof (cases j)
        case 0
        then show ?thesis using Cons.prems(4) by simp
      next
        case (Suc j')
        then have "j' < k - n" using that Cons.prems(1) by arith
        then show ?thesis using ih(4) True Suc by (simp add: read_loop_step[OF n])
      qed
      show ?thesis using ih(1,2) a b by simp
    next
      case ns: False
      let ?nm = "assign (str_strip l) nm"
      show ?thesis
      proof (cases "captured ?nm")
        case True
        then have rk: "r = ?nm" "k = n"
          using Cons.prems(2) ns by (simp_all add: read_loop_step[OF n])
        have tk: "take (k - (n - 1)) (l # ls) = [l]"
          using rk Cons.prems(1) by (simp add: take_Cons')
        have a: "\<forall>rest. read_loop n nm (take (k - (n - 1)) (l # ls) @ rest) = (r, k)"
          unfolding tk using True ns rk by (simp add: read_loop_step[OF n])
        have b: "\<not> captured (fst (read_loop n nm (take j (l # ls))))" if "j < k - (n - 1)" for j
        proof -
          have "j = 0" using that rk Cons.prems(1) by arith
          then show ?thesis using Cons.prems(4) by simp
        qed
        show ?thesis using rk n a b by simp
      next
        case nc: False
        then have rl: "read_loop (Suc n) ?nm ls = (r, k)"
          using Cons.prems(2) ns by (simp add: read_loop_step[OF n])
        from Cons.IH[OF _ rl Cons.prems(3) nc]
        have ih: "Suc n \<le> k" "k \<le> 500"
          "\<forall>rest. read_loop (Suc n) ?nm (take (k - n) ls @ rest) = (r, k)"
          "\<forall>j < k - n. \<not> captured (fst (read_loop (Suc n) ?nm (take j ls)))"
          by simp_all
        have tk: "take (k - (n - 1)) (l # ls) = l # take (k - n) ls"
          using ih(1) Cons.prems(1) by (simp add: take_Cons')
        have a: "\<forall>rest. read_loop n nm (take (k - (n - 1)) (l # ls) @ rest) = (r, k)"
          unfolding tk using ih(3) ns nc by (simp add: read_loop_step[OF n])
        have b: "\<not> captured (fst (read_loop n nm (take j (l # ls))))" if "j < k - (n - 1)" for j
        proof (cases j)
          case 0
          then show ?thesis using Cons.prems(4) by simp
        next
          case (Suc j')
          then have "j' < k - n" using that Cons.prems(1) by arith
          then show ?thesis using ih(4) ns nc Suc by (simp add: read_loop_step[OF n])
        qed
        show ?thesis using ih(1,2) a b by simp
      qed
    qed
  qed
qed

lemma runs_to_end:
  assumes "1 \<le> n" and "n \<le> 501" and "\<not> captured (fst (read_loop n nm ls))"
  shows "snd (read_loop n nm ls) = min (n - 1 + length ls) 501"
  using assms
proof (induction ls arbitrary: n nm)
  case Nil
  then show ?case by simp
next
  case (Cons l ls)
  show ?case
  proof (cases "500 < n")
    case True
    then show ?thesis using Cons.prems by simp
  next
    case False
    then have n: "n \<le> 500" by simp
    show ?thesis
      using Cons.IH[of "Suc n" nm] Cons.IH[of "Suc n" "assign (str_strip l) nm"] Cons.prems n
      by (auto simp: read_loop_step[OF n] split: if_splits)
  qed
qed


lemma read_prefix:
  "fst (read_loop 1 (None, None) (take (lines_read lines) lines))
     = fst (read_loop 1 (None, None) lines)"
proof -
  obtain r k where rk: "read_loop 1 (None, None) lines = (r, k)"
    by (cases "read_loop 1 (None, None) lines")
  then have k: "lines_read lines = k" by (simp add: lines_read_def)
  have i: "\<not> captured (None, None)" by (simp add: captured_def)
  show ?thesis
  proof (cases "captured r")
    case True
    from stops_at_capture[OF _ rk True i]
    have "\<forall>rest. read_loop 1 (None, None) (take (k - (1 - 1)) lines @ rest) = (r, k)" by blast
    then have "read_loop 1 (None, None) (take (k - (1 - 1)) lines @ []) = (r, k)" by (rule spec)
    then have "read_loop 1 (None, None) (take k lines) = (r, k)" by simp
    then show ?thesis using rk k by simp
  next
    case False
    then have m: "k = min (length lines) 501"
      using runs_to_end[of 1 "(None, None)" lines] rk by simp
    show ?thesis
    proof (cases "length lines \<le> 501")
      case True
      then show ?thesis using m k by simp
    next
      case False
      then have "k = 501" using m by simp
      moreover have "fst (read_loop 1 (None, None) (take 500 (take 501 lines)))
          = fst (read_loop 1 (None, None) (take 501 lines))"
        using first_500[of 1 "(None, None)" "take 501 lines"] by simp
      moreover have "fst (read_loop 1 (None, None) (take 500 lines))
          = fst (read_loop 1 (None, None) lines)"
        using first_500[of 1 "(None, None)" lines] by simp
      ultimately show ?thesis using k by simp
    qed
  qed
qed

lemma read_mod_info_prefix:
  "read_mod_info (Some (take (lines_read lines) lines)) w = read_mod_info (Some lines) w"
  by (simp only: read_mod_info_def option.case read_prefix)

lemma read_mod_info_seen:
  "read_mod_info (Some lines) w =
     (case name_values (seen lines) of
        [] \<Rightarrow> None
      | n # _ \<Rightarrow>
          (case modid_values (seen lines) of
             [] \<Rightarrow> None
           | m # _ \<Rightarrow> Some \<lparr>name = n, modid = m, workshopid = w\<rparr>))"
  unfolding seen_def
  using read_mod_info_char[of "take (lines_read lines) lines" w]
  by (simp only: read_mod_info_prefix)


section \<open>Claims about the parser\<close>

text \<open>
  Claim C1, as the code has it. When some processed line yields a non-empty name and some
  processed \<open>id\<close> line with a non-empty value has a non-empty trimmed first
  \<open>;\<close>-segment, the parser returns a record; and the \<open>modid\<close> of a record it returns is
  the first entry of \<open>modid_values\<close>: the trimmed first \<open>;\<close>-segment of the first such
  \<open>id\<close> line. The value is the text after the first \<open>=\<close>, trimmed and without its
  surrounding quotes. Later \<open>id\<close> lines do not matter.
\<close>

theorem modid_is_first_usable_segment:
  "(name_values (processed lines) \<noteq> [] \<and> modid_values (processed lines) \<noteq> []
      \<longrightarrow> (\<exists>r rest. read_mod_info (Some lines) w = Some r
             \<and> modid_values (processed lines) = modid r # rest))
   \<and> (read_mod_info (Some lines) w = Some r
      \<longrightarrow> (\<exists>rest. modid_values (processed lines) = modid r # rest))"
  by (auto simp: read_mod_info_char split: list.splits)

text \<open>Witness for C1: the \<open>id\<close> line with an empty first segment is passed over, the
  next one gives the modid, and the last one is ignored.\<close>

theorem modid_is_first_usable_segment_witness:
  "name_values (processed [''name = Test Mod'', ''id = ;'', ''id = first;second'', ''id=later'']) \<noteq> []
   \<and> modid_values (processed [''name = Test Mod'', ''id = ;'', ''id = first;second'', ''id=later''])
       = [''first'', ''later'']
   \<and> read_mod_info (Some [''name = Test Mod'', ''id = ;'', ''id = first;second'', ''id=later'']) ''42''
       = Some \<lparr>name = ''Test Mod'', modid = ''first'', workshopid = ''42''\<rparr>"
proof -
  let ?L = "[''name = Test Mod'', ''id = ;'', ''id = first;second'', ''id=later'']"
  have n: "name_values (processed ?L) \<noteq> []" by code_simp
  have m: "modid_values (processed ?L) = [''first'', ''later'']" by code_simp
  then have m': "modid_values (processed ?L) \<noteq> []" by simp
  from modid_is_first_usable_segment [of ?L "''42''", THEN conjunct1] n m'
  obtain r rest where r: "read_mod_info (Some ?L) ''42'' = Some r"
    and "modid_values (processed ?L) = modid r # rest"
    by blast
  then have mr: "modid r = ''first''" using m by simp
  from modid_is_first_usable_segment [of ?L "''42''" r, THEN conjunct2] r
  have "\<exists>rest. modid_values (processed ?L) = modid r # rest" by blast
  have e: "read_mod_info (Some ?L) ''42''
       = Some \<lparr>name = ''Test Mod'', modid = ''first'', workshopid = ''42''\<rparr>"
    by code_simp
  show ?thesis using n m e by simp
qed

text \<open>
  Claim C1 as it is worded fails: in the file \<open>name=A\<close>, \<open>id=;x\<close>, \<open>id=y\<close> the first
  \<open>id\<close> line with a non-empty value is \<open>id=;x\<close>, whose first segment is empty; the
  parser keeps looking and returns the \<open>modid\<close> \<open>y\<close> of the later line.
\<close>

theorem modid_first_id_line_counterexample:
  "read_mod_info (Some [''name=A'', ''id=;x'', ''id=y'']) ''1''
     = Some \<lparr>name = ''A'', modid = ''y'', workshopid = ''1''\<rparr>
   \<and> first_id_segment [''name=A'', ''id=;x'', ''id=y''] = Some []"
  by code_simp

text \<open>
  Claim C2. If no line the parser has processed yields a non-empty name, or none yields
  a non-empty modid, the parser returns \<open>None\<close>; and a record that is returned carries a
  non-empty name and a non-empty modid, each taken from a line the parser has processed.
\<close>

theorem no_record_without_both_fields:
  "(name_values (seen lines) = [] \<or> modid_values (seen lines) = []
      \<longrightarrow> read_mod_info (Some lines) w = None)
   \<and> (read_mod_info file w = Some r \<longrightarrow>
        (\<exists>lines. file = Some lines
           \<and> name r \<in> set (name_values (seen lines))
           \<and> modid r \<in> set (modid_values (seen lines)))
        \<and> name r \<noteq> [] \<and> modid r \<noteq> [])"
proof (intro conjI impI)
  assume "name_values (seen lines) = [] \<or> modid_values (seen lines) = []"
  then show "read_mod_info (Some lines) w = None"
    by (auto simp: read_mod_info_seen split: list.splits)
next
  assume r: "read_mod_info file w = Some r"
  then obtain ls where f: "file = Some ls"
    by (cases "file") (auto simp: read_mod_info_def)
  have m: "name r \<in> set (name_values (seen ls)) \<and> modid r \<in> set (modid_values (seen ls))"
    using r unfolding f by (auto simp: read_mod_info_seen split: list.splits)
  then show "\<exists>lines. file = Some lines
           \<and> name r \<in> set (name_values (seen lines))
           \<and> modid r \<in> set (modid_values (seen lines))"
    using f by blast
  show "name r \<noteq> []" using m name_values_nonempty by blast
  show "modid r \<noteq> []" using m modid_values_nonempty by blast
qed

text \<open>Witness for C2: a file without an \<open>id\<close> line, and a file that has both fields.\<close>

theorem no_record_without_both_fields_witness:
  "modid_values (seen [''name=Only Name'', ''# id=hidden'']) = []
   \<and> read_mod_info (Some [''name=Only Name'', ''# id=hidden'']) ''7'' = None
   \<and> read_mod_info (Some [''id=m1'', ''name=N'']) ''8''
       = Some \<lparr>name = ''N'', modid = ''m1'', workshopid = ''8''\<rparr>
   \<and> name \<lparr>name = ''N'', modid = ''m1'', workshopid = ''8''\<rparr> \<noteq> []
   \<and> modid \<lparr>name = ''N'', modid = ''m1'', workshopid = ''8''\<rparr> \<noteq> []"
proof -
  have h1: "modid_values (seen [''name=Only Name'', ''# id=hidden'']) = []"
    by code_simp
  have h2: "read_mod_info (Some [''id=m1'', ''name=N'']) ''8''
       = Some \<lparr>name = ''N'', modid = ''m1'', workshopid = ''8''\<rparr>"
    by code_simp
  have a: "read_mod_info (Some [''name=Only Name'', ''# id=hidden'']) ''7'' = None"
    using no_record_without_both_fields
      [of "[''name=Only Name'', ''# id=hidden'']" "''7''", THEN conjunct1] h1
    by blast
  have b: "name \<lparr>name = ''N'', modid = ''m1'', workshopid = ''8''\<rparr> \<noteq> []
     \<and> modid \<lparr>name = ''N'', modid = ''m1'', workshopid = ''8''\<rparr> \<noteq> []"
    using no_record_without_both_fields
      [of _ "''8''" "Some [''id=m1'', ''name=N'']"
         "\<lparr>name = ''N'', modid = ''m1'', workshopid = ''8''\<rparr>", THEN conjunct2] h2
    by blast
  show ?thesis using h1 h2 a b by simp
qed

text \<open>
  Claim C3, as the code has it. A line is split at its first \<open>=\<close>. The key is the text
  before it, trimmed and lower-cased. The value is the text after it, trimmed, then
  without all its leading and trailing double quotes, then without all its leading and
  trailing single quotes: every layer of one kind goes, not just one.
\<close>

theorem key_value_strips_all_quotes:
  assumes "CHR ''='' \<notin> set k"
  shows "\<exists>tk tv v1 v2. key_value (k @ CHR ''='' # v) = (str_lower tk, v2)
     \<and> stripped_of is_space k tk \<and> stripped_of is_space v tv
     \<and> stripped_of (\<lambda>c. c = dq) tv v1 \<and> stripped_of (\<lambda>c. c = sq) v1 v2"
  using split_eq_first[OF assms, of v]
  by (auto simp: key_value_def str_strip_def strip_chars_def intro!: strip_set_stripped)

text \<open>Witness for C3: a key with capitals and a value in doubled quotes.\<close>

theorem key_value_strips_all_quotes_witness:
  "CHR ''='' \<notin> set '' Name ''
   \<and> key_value ('' Name '' @ CHR ''='' # [CHR '' '', dq, sq, CHR ''a'', CHR ''='', CHR ''b'', sq, dq])
       = (''name'', ''a=b'')
   \<and> (\<exists>tk tv v1 v2.
         key_value ('' Name '' @ CHR ''='' # [CHR '' '', dq, sq, CHR ''a'', CHR ''='', CHR ''b'', sq, dq])
           = (str_lower tk, v2)
         \<and> stripped_of is_space '' Name '' tk
         \<and> stripped_of is_space [CHR '' '', dq, sq, CHR ''a'', CHR ''='', CHR ''b'', sq, dq] tv
         \<and> stripped_of (\<lambda>c. c = dq) tv v1 \<and> stripped_of (\<lambda>c. c = sq) v1 v2)"
proof -
  have h: "CHR ''='' \<notin> set '' Name ''" by simp
  have e: "key_value ('' Name '' @ CHR ''='' # [CHR '' '', dq, sq, CHR ''a'', CHR ''='', CHR ''b'', sq, dq])
       = (''name'', ''a=b'')"
    by code_simp
  show ?thesis
    using h e key_value_strips_all_quotes
      [OF h, of "[CHR '' '', dq, sq, CHR ''a'', CHR ''='', CHR ''b'', sq, dq]"]
    by blast
qed

text \<open>
  Claim C3 as it is worded fails: the value \<open>""x""\<close> does not keep one layer of quotes.
  The parser returns \<open>x\<close>, where stripping one layer would leave \<open>"x"\<close>.
\<close>

theorem one_quote_layer_counterexample:
  "snd (key_value (''name='' @ [dq, dq, CHR ''x'', dq, dq])) = ''x''
   \<and> strip_one_layer (str_strip (snd (split_eq (''name='' @ [dq, dq, CHR ''x'', dq, dq]))))
       = [dq, CHR ''x'', dq]"
  by code_simp

text \<open>
  Claim C8. \<open>k\<close> is the number of lines the loop took from the file. It never exceeds
  501, the line at which the loop leaves without looking at the text, and the result is
  that of the first 500 lines alone. When both fields are captured the loop has stopped
  at line \<open>k \<le> 500\<close>: whatever follows line \<open>k\<close> is not read, and at no earlier line
  were both fields captured. Otherwise the loop ran to the end of the file or to line 501.
\<close>

theorem reads_at_most_500_and_stops:
  assumes "read_loop 1 (None, None) lines = (r, k)"
  shows "k \<le> 501 \<and> k \<le> length lines
     \<and> fst (read_loop 1 (None, None) (take 500 lines)) = r
     \<and> (if captured r
        then k \<le> 500
          \<and> (\<forall>rest. read_loop 1 (None, None) (take k lines @ rest) = (r, k))
          \<and> (\<forall>j<k. \<not> captured (fst (read_loop 1 (None, None) (take j lines))))
        else k = min (length lines) 501)"
proof -
  have i: "\<not> captured (None, None)" by (simp add: captured_def)
  have a: "k \<le> 501" using count_limit[of 1 "(None, None)" lines] assms by simp
  have b: "k \<le> length lines" using count_bounds[of 1 "(None, None)" lines] assms by simp
  have c: "fst (read_loop 1 (None, None) (take 500 lines)) = r"
    using first_500[of 1 "(None, None)" lines] assms by simp
  show ?thesis
  proof (cases "captured r")
    case True
    from stops_at_capture[OF _ assms True i]
    show ?thesis using a b c True by simp
  next
    case False
    then have "k = min (length lines) 501"
      using runs_to_end[of 1 "(None, None)" lines] assms by simp
    then show ?thesis using a b c False by simp
  qed
qed

text \<open>Witness for C8: both fields are there after two lines, and the third is not read;
  a file that lacks the \<open>id\<close> is read to its end.\<close>

theorem reads_at_most_500_and_stops_witness:
  "read_loop 1 (None, None) [''name=A'', ''id=b'', ''id=c''] = ((Some ''A'', Some ''b''), 2)
   \<and> captured (Some ''A'', Some ''b'')
   \<and> read_loop 1 (None, None) (take 2 [''name=A'', ''id=b'', ''id=c''] @ [''name=Z'', ''id=z''])
       = ((Some ''A'', Some ''b''), 2)
   \<and> \<not> captured (fst (read_loop 1 (None, None) (take 1 [''name=A'', ''id=b'', ''id=c''])))
   \<and> read_loop 1 (None, None) [''name=A'', ''note''] = ((Some ''A'', None), 2)
   \<and> \<not> captured (Some ''A'', None)
   \<and> (2::nat) = min (length [''name=A'', ''note'']) 501"
proof -
  have h: "read_loop 1 (None, None) [''name=A'', ''id=b'', ''id=c''] = ((Some ''A'', Some ''b''), 2)"
    by code_simp
  have c: "captured (Some ''A'', Some ''b'')" by (simp add: captured_def)
  have h': "read_loop 1 (None, None) [''name=A'', ''note''] = ((Some ''A'', None), 2)"
    by code_simp
  have c': "\<not> captured (Some ''A'', None)" by (simp add: captured_def)
  note t = reads_at_most_500_and_stops [OF h]
  note t' = reads_at_most_500_and_stops [OF h']
  from t c have a: "\<forall>rest. read_loop 1 (None, None) (take 2 [''name=A'', ''id=b'', ''id=c''] @ rest)
       = ((Some ''A'', Some ''b''), 2)"
    by presburger
  from t c have b: "\<forall>j<2. \<not> captured (fst (read_loop 1 (None, None) (take j [''name=A'', ''id=b'', ''id=c''])))"
    by presburger
  have "(1::nat) < 2" by simp
  with b have b1: "\<not> captured (fst (read_loop 1 (None, None) (take 1 [''name=A'', ''id=b'', ''id=c''])))"
    by blast
  from t' c' have e: "(2::nat) = min (length [''name=A'', ''note'']) 501"
    by presburger
  show ?thesis using h c a b1 h' c' e by blast
qed


section \<open>Properties of the table operations\<close>

lemma startswith_prefix: "startswith s p = prefix p s"
  by (induction s p rule: startswith.induct) auto

lemma str_in_sublist: "str_in q s = sublist q s"
  by (induction s) (auto simp: startswith_prefix sublist_Cons_right)

lemma is_space_lower: "is_space (lower_char c) = is_space c"
proof -
  have "(of_char c :: nat) < 256" by simp
  then show ?thesis
    by (auto simp: is_space_def lower_char_def Let_def)
qed

lemma strip_lower: "str_strip (str_lower s) = str_lower (str_strip s)"
proof -
  have "is_space \<circ> lower_char = is_space" by (rule ext) (simp add: is_space_lower)
  then show ?thesis
    by (simp add: str_strip_def strip_set_def str_lower_def dropWhile_map rev_map)
qed

lemma concat_if_filter:
  "concat (map (\<lambda>m. if P m then [f m] else []) xs) = map f (filter P xs)"
  by (induction xs) auto

lemma filter_rows:
  "tree (apply_filter st) =
     map row_of (filter (\<lambda>m. str_strip (str_lower (search_var st)) = []
        \<or> str_in (str_strip (str_lower (search_var st))) (str_lower (name m))
        \<or> str_in (str_strip (str_lower (search_var st))) (str_lower (modid m))
        \<or> str_in (str_strip (str_lower (search_var st))) (str_lower (workshopid m))) (mods st))"
proof -
  have "row_of = (\<lambda>m. (name m, modid m, workshopid m))"
    by (rule ext) (simp add: row_of_def)
  then show ?thesis
    by (simp add: apply_filter_def Let_def concat_if_filter)
qed

lemma matches_iff:
  "(str_strip (str_lower q) = []
        \<or> str_in (str_strip (str_lower q)) (str_lower (name m))
        \<or> str_in (str_strip (str_lower q)) (str_lower (modid m))
        \<or> str_in (str_strip (str_lower q)) (str_lower (workshopid m)))
   = record_matches (str_strip q) m"
  by (auto simp: record_matches_def ci_substring_def str_in_sublist strip_lower)

lemma sort_by_keeps:
  "sort_by col st = Inr st' \<Longrightarrow> mods st' = mods st \<and> search_var st' = search_var st"
  by (auto simp: sort_by_def Let_def split: if_splits sum.splits)

lemma sort_rev_sort:
  fixes f :: "'a \<Rightarrow> 'k::linorder"
  shows "sort_key f (rev (sort_key f ys)) = sort_key f (rev ys)"
proof (rule properties_for_sort_key)
  show "mset (sort_key f (rev ys)) = mset (rev (sort_key f ys))" by simp
  show "sorted (map f (sort_key f (rev ys)))" by simp
  fix k
  have "filter (\<lambda>x. f x = f k) (sort_key f (rev ys)) = filter (\<lambda>x. f x = f k) (rev (sort_key f ys))"
    by (simp only: sort_key_stable rev_filter[symmetric])
  then show "filter (\<lambda>x. f k = f x) (sort_key f (rev ys)) = filter (\<lambda>x. f k = f x) (rev (sort_key f ys))"
    by (simp add: eq_commute)
qed

lemma stable_sort_twice:
  fixes f :: "'a \<Rightarrow> 'k::linorder"
  shows "stable_sort f (\<not> d) (stable_sort f d xs) = stable_sort f (\<not> d) xs"
  using sort_rev_sort[of f xs] sort_rev_sort[of f "rev xs"]
  by (simp add: stable_sort_def)

lemma set_stable_sort: "set (stable_sort f d xs) = set xs"
  by (simp add: stable_sort_def)

lemma list_sort_twice:
  assumes "list_sort key d xs = Inr ys"
  shows "list_sort key (\<not> d) ys = list_sort key (\<not> d) xs"
proof (cases "list_all (\<lambda>x. is_int_key (key x)) xs")
  case True
  then have ys: "ys = stable_sort (\<lambda>x. int_of_key (key x)) d xs"
    using assms by (simp add: list_sort_def)
  then have "list_all (\<lambda>x. is_int_key (key x)) ys"
    using True by (simp add: list_all_iff set_stable_sort)
  then show ?thesis using True ys by (simp add: list_sort_def stable_sort_twice)
next
  case False
  then have s: "list_all (\<lambda>x. \<not> is_int_key (key x)) xs"
    using assms by (simp add: list_sort_def split: if_splits)
  then have ys: "ys = stable_sort (\<lambda>x. str_of_key (key x)) d xs"
    using assms False by (simp add: list_sort_def)
  have "set ys = set xs" by (simp add: ys set_stable_sort)
  then have "list_all (\<lambda>x. \<not> is_int_key (key x)) ys" and "\<not> list_all (\<lambda>x. is_int_key (key x)) ys"
    using s False by (simp_all add: list_all_iff)
  then show ?thesis using False s ys by (simp add: list_sort_def stable_sort_twice)
qed

lemma list_sort_set: "list_sort key d xs = Inr ys \<Longrightarrow> set ys = set xs"
  by (auto simp: list_sort_def set_stable_sort split: if_splits)

lemma list_sort_nil_iff: "list_sort key d xs = Inr ys \<Longrightarrow> (ys = []) = (xs = [])"
  using list_sort_set[of key d xs ys] by (metis set_empty)

lemma list_sort_succeeds_again:
  "list_sort key d xs = Inr ys \<Longrightarrow> \<exists>zs. list_sort key d' ys = Inr zs"
  by (auto simp: list_sort_def list_all_iff set_stable_sort split: if_splits)

lemma stable_sort_sorted:
  fixes f :: "'a \<Rightarrow> 'k::linorder"
  shows "sorted_wrt (\<lambda>a b. if d then f b \<le> f a else f a \<le> f b) (stable_sort f d xs)"
proof (cases d)
  case True
  have "sorted_wrt (\<lambda>a b. f a \<le> f b) (sort_key f (rev xs))"
    using sorted_sort_key[of f "rev xs"] by (simp add: sorted_map)
  then show ?thesis using True by (simp add: stable_sort_def sorted_wrt_rev)
next
  case False
  have "sorted_wrt (\<lambda>a b. f a \<le> f b) (sort_key f xs)"
    using sorted_sort_key[of f xs] by (simp add: sorted_map)
  then show ?thesis using False by (simp add: stable_sort_def)
qed

lemma stable_sort_mset: "mset (stable_sort f d xs) = mset xs"
  by (simp add: stable_sort_def)

lemma stable_sort_stable:
  fixes f :: "'a \<Rightarrow> 'k::linorder"
  shows "filter (\<lambda>x. f x = k) (stable_sort f d xs) = filter (\<lambda>x. f x = k) xs"
  by (simp add: stable_sort_def sort_key_stable rev_filter[symmetric])

lemma int_key_eq: "is_int_key k \<Longrightarrow> k = IntKey (int_of_key k)"
  by (cases k) auto

lemma str_key_eq: "\<not> is_int_key k \<Longrightarrow> k = StrKey (str_of_key k)"
  by (cases k) auto

lemma list_sort_result:
  assumes "list_sort key d xs = Inr ys"
  shows "sorted_wrt (\<lambda>a b. if d then key_leq (key b) (key a) else key_leq (key a) (key b)) ys
     \<and> mset ys = mset xs
     \<and> (\<forall>k. filter (\<lambda>x. key x = k) ys = filter (\<lambda>x. key x = k) xs)"
proof (cases "list_all (\<lambda>x. is_int_key (key x)) xs")
  case True
  let ?f = "\<lambda>x. int_of_key (key x)"
  have ys: "ys = stable_sort ?f d xs" using assms True by (simp add: list_sort_def)
  have all: "\<forall>x\<in>set ys. key x = IntKey (?f x)"
    using True int_key_eq by (auto simp: ys set_stable_sort list_all_iff)
  have "sorted_wrt (\<lambda>a b. if d then ?f b \<le> ?f a else ?f a \<le> ?f b) ys"
    unfolding ys by (rule stable_sort_sorted)
  then have a: "sorted_wrt (\<lambda>a b. if d then key_leq (key b) (key a) else key_leq (key a) (key b)) ys"
  proof (rule sorted_wrt_mono_rel[rotated])
    fix a b assume "a \<in> set ys" "b \<in> set ys" "if d then ?f b \<le> ?f a else ?f a \<le> ?f b"
    then show "if d then key_leq (key b) (key a) else key_leq (key a) (key b)"
      using all by (metis key_leq.simps(1))
  qed
  have c: "filter (\<lambda>x. key x = k) zs = filter (\<lambda>x. key x = k) (filter (\<lambda>x. ?f x = int_of_key k) zs)" for k zs
    by (induction zs) auto
  have "filter (\<lambda>x. key x = k) ys = filter (\<lambda>x. key x = k) xs" for k
    unfolding ys c[of k "stable_sort ?f d xs"] c[of k xs] stable_sort_stable ..
  then show ?thesis using a by (simp add: ys stable_sort_mset)
next
  case False
  let ?f = "\<lambda>x. str_of_key (key x)"
  have s: "list_all (\<lambda>x. \<not> is_int_key (key x)) xs"
    using assms False by (simp add: list_sort_def split: if_splits)
  have ys: "ys = stable_sort ?f d xs" using assms False s by (simp add: list_sort_def)
  have all: "\<forall>x\<in>set ys. key x = StrKey (?f x)"
    using s str_key_eq by (auto simp: ys set_stable_sort list_all_iff)
  have "sorted_wrt (\<lambda>a b. if d then ?f b \<le> ?f a else ?f a \<le> ?f b) ys"
    unfolding ys by (rule stable_sort_sorted)
  then have a: "sorted_wrt (\<lambda>a b. if d then key_leq (key b) (key a) else key_leq (key a) (key b)) ys"
  proof (rule sorted_wrt_mono_rel[rotated])
    fix a b assume "a \<in> set ys" "b \<in> set ys" "if d then ?f b \<le> ?f a else ?f a \<le> ?f b"
    then show "if d then key_leq (key b) (key a) else key_leq (key a) (key b)"
      using all by (metis key_leq.simps(2))
  qed
  have c: "filter (\<lambda>x. key x = k) zs = filter (\<lambda>x. key x = k) (filter (\<lambda>x. ?f x = str_of_key k) zs)" for k zs
    by (induction zs) auto
  have "filter (\<lambda>x. key x = k) ys = filter (\<lambda>x. key x = k) xs" for k
    unfolding ys c[of k "stable_sort ?f d xs"] c[of k xs] stable_sort_stable ..
  then show ?thesis using a by (simp add: ys stable_sort_mset)
qed

lemma key_wid:
  "sort_key_of WorkshopID r =
     (case py_int (snd (snd r)) of
        Some i \<Rightarrow> IntKey i
      | None \<Rightarrow> StrKey (str_lower (snd (snd r))))"
  by (cases r) (auto simp: sort_key_of_def split: option.splits)

lemma int_keys:
  assumes "list_all (\<lambda>r. py_int (snd (snd r)) \<noteq> None) rows"
  shows "list_all (\<lambda>x. is_int_key (sort_key_of WorkshopID x)) rows"
  using assms by (auto simp: list_all_iff key_wid split: option.splits)

lemma int_key_val:
  "int_of_key (sort_key_of WorkshopID r) = (case py_int (snd (snd r)) of Some i \<Rightarrow> i | None \<Rightarrow> 0)"
  by (simp add: key_wid split: option.splits)


text \<open>
  A workshop id that starts with the separator 28 is no integer for \<open>int\<close>: its key is
  the string, so it sorts with string ids and raises beside an integer id.
\<close>

lemma separator_padded_ids:
  "py_int (CHR 0x1C # ''12'') = None
   \<and> py_int (CHR 0x85 # ''12'') = Some 12
   \<and> list_sort (sort_key_of WorkshopID) False
        [(''A'', ''a'', CHR 0x1C # ''12''), (''B'', ''b'', ''abc'')]
       = Inr [(''A'', ''a'', CHR 0x1C # ''12''), (''B'', ''b'', ''abc'')]
   \<and> list_sort (sort_key_of WorkshopID) False
        [(''A'', ''a'', CHR 0x1C # ''12''), (''B'', ''b'', ''5'')]
       = Inl TypeError
   \<and> map_sum id tree (click_twice WorkshopID
        \<lparr>mods = [], search_var = [],
         tree = [(''A'', ''a'', CHR 0x1C # ''12''), (''B'', ''b'', CHR 0x1C # ''5'')],
         sort_dir = empty_dirs\<rparr>)
       = Inr [(''B'', ''b'', CHR 0x1C # ''5''), (''A'', ''a'', CHR 0x1C # ''12'')]"
  by code_simp


section \<open>Claims about the table operations\<close>

text \<open>
  Claim C4, as the code has it. When the first activation of a column sorts the rows,
  the second one does too, and afterwards the column's remembered direction is what it was
  before the first activation, while the directions of the other columns, the mods and the
  query have not moved. The rows do not go back to their former order: they stand in the
  order of their keys in the direction opposite to the first activation, as one stable
  sort of the former rows leaves them: the same rows, those of equal key in their former
  order.
\<close>

theorem sort_twice_toggles_back:
  assumes "sort_by col st = Inr st1"
  shows "\<exists>st2. sort_by col st1 = Inr st2
     \<and> get_dir (sort_dir st2) col = get_dir (sort_dir st) col
     \<and> (\<forall>c. c \<noteq> col \<longrightarrow> sort_dir st2 c = sort_dir st c)
     \<and> list_sort (sort_key_of col) (\<not> get_dir (sort_dir st) col) (tree st) = Inr (tree st2)
     \<and> in_order col (\<not> get_dir (sort_dir st) col) (tree st2)
     \<and> mset (tree st2) = mset (tree st)
     \<and> (\<forall>k. filter (\<lambda>r. sort_key_of col r = k) (tree st2)
            = filter (\<lambda>r. sort_key_of col r = k) (tree st))
     \<and> mods st2 = mods st \<and> search_var st2 = search_var st"
proof (cases "tree st = []")
  case True
  then have "st1 = st" using assms by (simp add: sort_by_def)
  then show ?thesis
    using True by (simp add: sort_by_def list_sort_def stable_sort_def in_order_def)
next
  case False
  let ?d = "get_dir (sort_dir st) col"
  obtain ys where ys: "list_sort (sort_key_of col) ?d (tree st) = Inr ys"
    and st1: "st1 = st\<lparr>tree := ys, sort_dir := (sort_dir st)(col \<mapsto> \<not> ?d)\<rparr>"
    using assms False by (auto simp: sort_by_def Let_def split: sum.splits)
  have ne: "ys \<noteq> []" using list_sort_nil_iff[OF ys] False by simp
  obtain zs where zs: "list_sort (sort_key_of col) (\<not> ?d) ys = Inr zs"
    using list_sort_succeeds_again[OF ys] by blast
  have d1: "get_dir (sort_dir st1) col = (\<not> ?d)" by (simp add: st1 get_dir_def)
  have s2: "sort_by col st1 = Inr (st1\<lparr>tree := zs, sort_dir := (sort_dir st1)(col \<mapsto> ?d)\<rparr>)"
    using ne zs d1 by (simp add: sort_by_def Let_def st1)
  have direct: "list_sort (sort_key_of col) (\<not> ?d) (tree st) = Inr zs"
    using list_sort_twice[OF ys] zs by simp
  note r = list_sort_result[OF direct]
  have o: "in_order col (\<not> ?d) zs" using r by (simp add: in_order_def)
  have m: "mset zs = mset (tree st)" using r by simp
  have f: "\<forall>k. filter (\<lambda>r. sort_key_of col r = k) zs = filter (\<lambda>r. sort_key_of col r = k) (tree st)"
    using r by simp
  show ?thesis using s2 direct o m f by (simp add: st1 get_dir_def)
qed

text \<open>Witness for C4: two rows in descending order of name, sorted twice by name.\<close>

theorem sort_twice_toggles_back_witness:
  "sort_by Name \<lparr>mods = [], search_var = [],
      tree = [(''b'', ''n'', ''2''), (''a'', ''m'', ''1'')], sort_dir = empty_dirs\<rparr>
    = Inr \<lparr>mods = [], search_var = [],
      tree = [(''a'', ''m'', ''1''), (''b'', ''n'', ''2'')], sort_dir = empty_dirs(Name \<mapsto> True)\<rparr>
   \<and> (\<exists>st2. sort_by Name \<lparr>mods = [], search_var = [],
      tree = [(''a'', ''m'', ''1''), (''b'', ''n'', ''2'')], sort_dir = empty_dirs(Name \<mapsto> True)\<rparr> = Inr st2
     \<and> get_dir (sort_dir st2) Name = get_dir empty_dirs Name
     \<and> sort_dir st2 ModID = empty_dirs ModID
     \<and> tree st2 = [(''b'', ''n'', ''2''), (''a'', ''m'', ''1'')]
     \<and> in_order Name True (tree st2))"
proof -
  have ls: "list_sort (sort_key_of Name) False [(''b'', ''n'', ''2''), (''a'', ''m'', ''1'')]
        = Inr [(''a'', ''m'', ''1''), (''b'', ''n'', ''2'')]"
    by code_simp
  have ls': "list_sort (sort_key_of Name) True [(''b'', ''n'', ''2''), (''a'', ''m'', ''1'')]
        = Inr [(''b'', ''n'', ''2''), (''a'', ''m'', ''1'')]"
    by code_simp
  have g: "get_dir empty_dirs Name = False" by (simp add: get_dir_def empty_dirs_def)
  have h: "sort_by Name \<lparr>mods = [], search_var = [],
      tree = [(''b'', ''n'', ''2''), (''a'', ''m'', ''1'')], sort_dir = empty_dirs\<rparr>
    = Inr \<lparr>mods = [], search_var = [],
      tree = [(''a'', ''m'', ''1''), (''b'', ''n'', ''2'')], sort_dir = empty_dirs(Name \<mapsto> True)\<rparr>"
    using ls by (simp add: sort_by_def get_dir_def empty_dirs_def)
  from sort_twice_toggles_back [OF h] obtain st2 where
    a: "sort_by Name \<lparr>mods = [], search_var = [],
      tree = [(''a'', ''m'', ''1''), (''b'', ''n'', ''2'')], sort_dir = empty_dirs(Name \<mapsto> True)\<rparr> = Inr st2"
    and b: "get_dir (sort_dir st2) Name = get_dir empty_dirs Name"
    and c: "\<forall>c. c \<noteq> Name \<longrightarrow> sort_dir st2 c = empty_dirs c"
    and d: "list_sort (sort_key_of Name) (\<not> get_dir empty_dirs Name)
          [(''b'', ''n'', ''2''), (''a'', ''m'', ''1'')] = Inr (tree st2)"
    and e: "in_order Name (\<not> get_dir empty_dirs Name) (tree st2)"
    by auto
  have t: "tree st2 = [(''b'', ''n'', ''2''), (''a'', ''m'', ''1'')]"
    using d ls' g by simp
  have c': "sort_dir st2 ModID = empty_dirs ModID" using c by simp
  have e': "in_order Name True (tree st2)" using e g by simp
  show ?thesis using h a b c' t e' by blast
qed

text \<open>
  Claim C4 as it is worded fails: two rows in ascending order of name stay as they are
  at the first activation of \<open>Name\<close> and are turned round by the second.
\<close>

theorem sort_twice_order_counterexample:
  "map_sum id tree (click_twice Name
     \<lparr>mods = [], search_var = [],
      tree = [(''a'', ''m'', ''1''), (''b'', ''n'', ''2'')], sort_dir = empty_dirs\<rparr>)
   = Inr [(''b'', ''n'', ''2''), (''a'', ''m'', ''1'')]
   \<and> [(''b'', ''n'', ''2''), (''a'', ''m'', ''1'')] \<noteq> [(''a'', ''m'', ''1''), (''b'', ''n'', ''2'')]"
  by code_simp

text \<open>
  Claim C5 at the table with the workshop ids \<open>10\<close> and \<open>abc\<close>: the sort does not fall
  back to string comparison, it raises \<open>TypeError\<close>, and neither the rows nor the
  direction are written.
\<close>

theorem mixed_workshopid_sort_raises:
  "sort_by WorkshopID
     \<lparr>mods = [], search_var = [],
      tree = [(''A'', ''a'', ''10''), (''B'', ''b'', ''abc'')], sort_dir = empty_dirs\<rparr>
   = Inl TypeError"
proof -
  have "list_sort (sort_key_of WorkshopID) False [(''A'', ''a'', ''10''), (''B'', ''b'', ''abc'')]
        = Inl TypeError"
    by code_simp
  then show ?thesis
    by (simp add: sort_by_def get_dir_def empty_dirs_def)
qed

text \<open>
  Claim C6. When every workshop id of the table reads as an integer and the remembered
  direction of the column is ascending, sorting by \<open>WorkshopID\<close> succeeds; the rows then
  stand in ascending order of those integers, they are the same rows as before, and rows
  of equal integer keep their former order.
\<close>

theorem numeric_workshopid_sort:
  assumes "list_all (\<lambda>r. py_int (snd (snd r)) \<noteq> None) (tree st)"
    and "\<not> get_dir (sort_dir st) WorkshopID"
  shows "\<exists>st'. sort_by WorkshopID st = Inr st' \<and> numeric_order (tree st')
     \<and> mset (tree st') = mset (tree st)
     \<and> (\<forall>i. filter (\<lambda>r. py_int (snd (snd r)) = Some i) (tree st')
            = filter (\<lambda>r. py_int (snd (snd r)) = Some i) (tree st))"
proof (cases "tree st = []")
  case True
  then show ?thesis by (simp add: sort_by_def numeric_order_def)
next
  case False
  let ?f = "\<lambda>x. int_of_key (sort_key_of WorkshopID x)"
  let ?ys = "sort_key ?f (tree st)"
  have ls: "list_sort (sort_key_of WorkshopID) False (tree st) = Inr ?ys"
    using int_keys[OF assms(1)] by (simp add: list_sort_def stable_sort_def)
  have so: "numeric_order ?ys"
    unfolding numeric_order_def int_key_val[symmetric] by simp
  have st: "filter (\<lambda>r. py_int (snd (snd r)) = Some i) ?ys
            = filter (\<lambda>r. py_int (snd (snd r)) = Some i) (tree st)" for i
  proof -
    have "filter (\<lambda>r. py_int (snd (snd r)) = Some i) zs
          = filter (\<lambda>r. py_int (snd (snd r)) \<noteq> None) (filter (\<lambda>r. ?f r = i) zs)" for zs
      by (induction zs) (auto simp: int_key_val split: option.splits)
    then show ?thesis by (simp only: sort_key_stable)
  qed
  show ?thesis using False assms(2) ls so st by (simp add: sort_by_def)
qed

text \<open>Witness for C6: the workshop ids 10, 2, 1 come out as 1, 2, 10.\<close>

theorem numeric_workshopid_sort_witness:
  "list_all (\<lambda>r. py_int (snd (snd r)) \<noteq> None)
     [(''a'', ''m'', ''10''), (''b'', ''n'', ''2''), (''c'', ''o'', ''1'')]
   \<and> \<not> get_dir empty_dirs WorkshopID
   \<and> map_sum id tree (sort_by WorkshopID \<lparr>mods = [], search_var = [],
        tree = [(''a'', ''m'', ''10''), (''b'', ''n'', ''2''), (''c'', ''o'', ''1'')],
        sort_dir = empty_dirs\<rparr>)
      = Inr [(''c'', ''o'', ''1''), (''b'', ''n'', ''2''), (''a'', ''m'', ''10'')]
   \<and> numeric_order [(''c'', ''o'', ''1''), (''b'', ''n'', ''2''), (''a'', ''m'', ''10'')]"
proof -
  let ?S = "\<lparr>mods = [], search_var = [],
        tree = [(''a'', ''m'', ''10''), (''b'', ''n'', ''2''), (''c'', ''o'', ''1'')],
        sort_dir = empty_dirs\<rparr>"
  have h1: "list_all (\<lambda>r. py_int (snd (snd r)) \<noteq> None) (tree ?S)"
    by code_simp
  have h2: "\<not> get_dir (sort_dir ?S) WorkshopID"
    by (simp add: get_dir_def empty_dirs_def)
  have e: "map_sum id tree (sort_by WorkshopID ?S)
      = Inr [(''c'', ''o'', ''1''), (''b'', ''n'', ''2''), (''a'', ''m'', ''10'')]"
    by code_simp
  from numeric_workshopid_sort [OF h1 h2] obtain st' where
    s: "sort_by WorkshopID ?S = Inr st'" and n: "numeric_order (tree st')"
    by blast
  from s e have "tree st' = [(''c'', ''o'', ''1''), (''b'', ''n'', ''2''), (''a'', ''m'', ''10'')]"
    by simp
  with n h1 h2 e show ?thesis by simp
qed

text \<open>
  Claim C7, as the code has it. The table shows exactly the records in which the query,
  with the white space around it trimmed, is a case-insensitive substring of the name,
  the modid or the workshopid, in scan order. A query that is empty or all white space
  therefore shows every record.
\<close>

theorem filter_matches_trimmed_query:
  "tree (apply_filter st)
     = map row_of (filter (record_matches (str_strip (search_var st))) (mods st))"
  by (simp add: filter_rows matches_iff)

text \<open>
  Claim C7 as it is worded fails for a query with white space at an end: the query
  \<open>" a"\<close> is no substring of the name \<open>xa\<close>, of \<open>m\<close> or of \<open>1\<close>, yet the record is shown.
\<close>

theorem filter_untrimmed_query_counterexample:
  "tree (apply_filter \<lparr>mods = [\<lparr>name = ''xa'', modid = ''m'', workshopid = ''1''\<rparr>],
       search_var = '' a'', tree = [], sort_dir = empty_dirs\<rparr>) = [(''xa'', ''m'', ''1'')]
   \<and> \<not> record_matches '' a'' \<lparr>name = ''xa'', modid = ''m'', workshopid = ''1''\<rparr>"
proof -
  have a: "tree (apply_filter \<lparr>mods = [\<lparr>name = ''xa'', modid = ''m'', workshopid = ''1''\<rparr>],
       search_var = '' a'', tree = [], sort_dir = empty_dirs\<rparr>) = [(''xa'', ''m'', ''1'')]"
    by code_simp
  have b: "\<not> record_matches '' a'' \<lparr>name = ''xa'', modid = ''m'', workshopid = ''1''\<rparr>"
    unfolding record_matches_def ci_substring_def str_in_sublist[symmetric]
    by code_simp
  show ?thesis using a b by simp
qed

text \<open>
  Claim C9. An export writes whenever there are scanned mods, a file was chosen and
  it could be opened; what it writes is the header followed by the rows that
  \<open>_apply_filter\<close> puts into the table for the same state. Those are the rows of the
  records that match the trimmed query, in scan order. An export after a column sort
  writes what an export before it writes.
\<close>

theorem export_rows_follow_filter:
  "export_csv st p ok =
     (if mods st = [] then NothingToExport
      else if p = [] then Cancelled
      else if \<not> ok then WriteFailed
      else Written ([''Name'', ''ModID'', ''WorkshopID''] # map csv_row (tree (apply_filter st))))
   \<and> tree (apply_filter st)
       = map row_of (filter (record_matches (str_strip (search_var st))) (mods st))
   \<and> (\<exists>ms. subseq ms (mods st) \<and> tree (apply_filter st) = map row_of ms)
   \<and> (sort_by col st = Inr st' \<longrightarrow> export_csv st' p ok = export_csv st p ok)"
proof (intro conjI impI)
  show "export_csv st p ok =
     (if mods st = [] then NothingToExport
      else if p = [] then Cancelled
      else if \<not> ok then WriteFailed
      else Written ([''Name'', ''ModID'', ''WorkshopID''] # map csv_row (tree (apply_filter st))))"
    by (simp add: export_csv_def filter_rows Let_def csv_row_def row_of_def comp_def)
  show "tree (apply_filter st)
       = map row_of (filter (record_matches (str_strip (search_var st))) (mods st))"
    by (simp add: filter_rows matches_iff)
  show "\<exists>ms. subseq ms (mods st) \<and> tree (apply_filter st) = map row_of ms"
    using filter_rows subseq_filter_left by blast
next
  assume "sort_by col st = Inr st'"
  then show "export_csv st' p ok = export_csv st p ok"
    by (simp add: export_csv_def sort_by_keeps)
qed

text \<open>Witness for C9: three mods, the query \<open>" O "\<close> shows two of them, the table is
  sorted by name, and the export still writes the two in scan order.\<close>

theorem export_rows_follow_filter_witness:
  "sort_by Name \<lparr>mods = [\<lparr>name = ''Foo'', modid = ''f'', workshopid = ''3''\<rparr>,
                         \<lparr>name = ''Bar'', modid = ''b'', workshopid = ''2''\<rparr>,
                         \<lparr>name = ''Bob'', modid = ''c'', workshopid = ''1''\<rparr>],
       search_var = '' O '', tree = [(''Foo'', ''f'', ''3''), (''Bob'', ''c'', ''1'')],
       sort_dir = empty_dirs\<rparr>
     = Inr \<lparr>mods = [\<lparr>name = ''Foo'', modid = ''f'', workshopid = ''3''\<rparr>,
                         \<lparr>name = ''Bar'', modid = ''b'', workshopid = ''2''\<rparr>,
                         \<lparr>name = ''Bob'', modid = ''c'', workshopid = ''1''\<rparr>],
       search_var = '' O '', tree = [(''Bob'', ''c'', ''1''), (''Foo'', ''f'', ''3'')],
       sort_dir = empty_dirs(Name \<mapsto> True)\<rparr>
   \<and> export_csv \<lparr>mods = [\<lparr>name = ''Foo'', modid = ''f'', workshopid = ''3''\<rparr>,
                         \<lparr>name = ''Bar'', modid = ''b'', workshopid = ''2''\<rparr>,
                         \<lparr>name = ''Bob'', modid = ''c'', workshopid = ''1''\<rparr>],
       search_var = '' O '', tree = [(''Bob'', ''c'', ''1''), (''Foo'', ''f'', ''3'')],
       sort_dir = empty_dirs(Name \<mapsto> True)\<rparr> ''out.csv'' True
     = Written [[''Name'', ''ModID'', ''WorkshopID''], [''Foo'', ''f'', ''3''], [''Bob'', ''c'', ''1'']]
   \<and> tree (apply_filter \<lparr>mods = [\<lparr>name = ''Foo'', modid = ''f'', workshopid = ''3''\<rparr>,
                         \<lparr>name = ''Bar'', modid = ''b'', workshopid = ''2''\<rparr>,
                         \<lparr>name = ''Bob'', modid = ''c'', workshopid = ''1''\<rparr>],
       search_var = '' O '', tree = [(''Foo'', ''f'', ''3''), (''Bob'', ''c'', ''1'')],
       sort_dir = empty_dirs\<rparr>)
     = [(''Foo'', ''f'', ''3''), (''Bob'', ''c'', ''1'')]"
proof -
  let ?M = "[\<lparr>name = ''Foo'', modid = ''f'', workshopid = ''3''\<rparr>,
             \<lparr>name = ''Bar'', modid = ''b'', workshopid = ''2''\<rparr>,
             \<lparr>name = ''Bob'', modid = ''c'', workshopid = ''1''\<rparr>]"
  let ?S = "\<lparr>mods = ?M, search_var = '' O '',
       tree = [(''Foo'', ''f'', ''3''), (''Bob'', ''c'', ''1'')], sort_dir = empty_dirs\<rparr>"
  let ?S' = "\<lparr>mods = ?M, search_var = '' O '',
       tree = [(''Bob'', ''c'', ''1''), (''Foo'', ''f'', ''3'')],
       sort_dir = empty_dirs(Name \<mapsto> True)\<rparr>"
  have ls: "list_sort (sort_key_of Name) False [(''Foo'', ''f'', ''3''), (''Bob'', ''c'', ''1'')]
        = Inr [(''Bob'', ''c'', ''1''), (''Foo'', ''f'', ''3'')]"
    by code_simp
  have s: "sort_by Name ?S = Inr ?S'"
    using ls by (simp add: sort_by_def get_dir_def empty_dirs_def)
  have t: "tree (apply_filter ?S) = [(''Foo'', ''f'', ''3''), (''Bob'', ''c'', ''1'')]"
    by code_simp
  note x = export_rows_follow_filter [of ?S "''out.csv''" True Name ?S']
  from x have a: "export_csv ?S ''out.csv'' True =
      Written ([''Name'', ''ModID'', ''WorkshopID''] # map csv_row (tree (apply_filter ?S)))"
    by simp
  from x s have b: "export_csv ?S' ''out.csv'' True = export_csv ?S ''out.csv'' True"
    by blast
  have "export_csv ?S' ''out.csv'' True
     = Written [[''Name'', ''ModID'', ''WorkshopID''], [''Foo'', ''f'', ''3''], [''Bob'', ''c'', ''1'']]"
    unfolding b a t by (simp add: csv_row_def)
  then show ?thesis using s t by simp
qed

text \<open>
  Claim C10. Activating a column sort while the table shows no row returns at once:
  the rows and the remembered direction of every column are what they were.
\<close>

theorem sort_empty_table_unchanged:
  "tree st = [] \<Longrightarrow> sort_by col st = Inr st"
  by (simp add: sort_by_def)

text \<open>Witness for C10: an empty table whose \<open>Name\<close> column remembers a direction.\<close>

theorem sort_empty_table_unchanged_witness:
  "tree \<lparr>mods = [], search_var = [], tree = [], sort_dir = empty_dirs(Name \<mapsto> True)\<rparr> = []
   \<and> sort_by Name \<lparr>mods = [], search_var = [], tree = [], sort_dir = empty_dirs(Name \<mapsto> True)\<rparr>
       = Inr \<lparr>mods = [], search_var = [], tree = [], sort_dir = empty_dirs(Name \<mapsto> True)\<rparr>"
  using sort_empty_table_unchanged
    [of "\<lparr>mods = [], search_var = [], tree = [], sort_dir = empty_dirs(Name \<mapsto> True)\<rparr>" Name]
  by simp

end
